theory Spec2Isabelle
  imports Main "HOL-Library.Word"
begin

section \<open>Shared data: bytes, Go errors, decimal rendering\<close>

type_synonym byte = "8 word"
type_synonym bytes = "byte list"

text \<open>
  Go error values. \<open>errors_New\<close>, \<open>errors_Errorf\<close> and \<open>errors_Wrap\<close> are the constructors
  of \<^verbatim>\<open>github.com/pkg/errors\<close> (an error made of a message, and an error wrapping a
  cause); the three \<open>Err...\<close> constants are the sentinel errors of the packages
  \<^verbatim>\<open>invoice\<close> and \<^verbatim>\<open>accountinfo\<close>. A wrapped sentinel is a different value from the
  sentinel itself, as in Go under \<^verbatim>\<open>==\<close>.
\<close>

datatype error =
    errors_New string
  | errors_Errorf string
  | errors_Wrap error string
  | ErrNotFound
  | ErrExists
  | ErrAccountInfoNotFound

text \<open>Runtime panics of the Go channel operations the code performs.\<close>

datatype panic = SendOnClosedChannel | CloseOfClosedChannel | MakechanSizeOutOfRange

definition digit_char :: "nat \<Rightarrow> char" where
  "digit_char d =
     (if d = 0 then CHR ''0'' else if d = 1 then CHR ''1'' else if d = 2 then CHR ''2''
      else if d = 3 then CHR ''3'' else if d = 4 then CHR ''4'' else if d = 5 then CHR ''5''
      else if d = 6 then CHR ''6'' else if d = 7 then CHR ''7'' else if d = 8 then CHR ''8''
      else CHR ''9'')"

text \<open>The decimal rendering of a non-negative integer (\<^verbatim>\<open>%d\<close>, \<^verbatim>\<open>strconv.FormatInt\<close>).\<close>

function decimal :: "nat \<Rightarrow> string" where
  "decimal n = (if n < 10 then [digit_char n] else decimal (n div 10) @ [digit_char (n mod 10)])"
  by pat_completeness auto
termination
  by (relation "measure (\<lambda>n. n)") auto

declare decimal.simps [simp del]

section \<open>Transactions as the notifier sees them\<close>

text \<open>
  An account is identified by its address, the canonical string rendering of its public
  key. Of an XDR transaction envelope the model keeps the top-level source account and the
  operations, each with its optional source account and its body; of the metadata it keeps,
  per operation, the ledger entry changes with their kind and the account they touch.
\<close>

type_synonym address = string

datatype operationBody =
    Payment address
  | CreateAccount address
  | AccountMerge address

record operation =
  opSourceAccount :: "address option"
  opBody :: operationBody

record transactionEnvelope =
  txSourceAccount :: address
  txOperations :: "operation list"

type_synonym transactionResult = bytes

datatype ledgerEntryChangeType = LedgerEntryCreated | LedgerEntryUpdated | LedgerEntryRemoved

record ledgerEntryChange =
  lecType :: ledgerEntryChangeType
  lecAccount :: address

type_synonym operationMeta = "ledgerEntryChange list"
type_synonym transactionMeta = "operationMeta list"

section \<open>The event stream (pkg/account/server/stream.go)\<close>

text \<open>
  \<^verbatim>\<open>type eventData struct { e; r; m }\<close>. The fields carry the prefix \<open>ed_\<close>, since a
  one-letter field name would capture every variable of that name.
\<close>

record eventData =
  ed_e :: transactionEnvelope
  ed_r :: transactionResult
  ed_m :: transactionMeta

text \<open>
  A buffered Go channel: the queued values (head first), the capacity given to
  \<^verbatim>\<open>make\<close>, and whether \<^verbatim>\<open>close\<close> was called on it. The receiver is a separate step
  (\<open>receive\<close>); a receiver already blocked on the channel is a \<open>receive\<close> right after
  the send.
\<close>

record 'a chan =
  buf :: "'a list"
  cap :: nat
  chclosed :: bool

text \<open>
  \<^verbatim>\<open>select { case ch <- x: default: }\<close>: sending on a closed channel panics; otherwise
  the value is queued when the buffer has room (\<open>Some\<close> of the new channel), and the
  default branch is taken when it has none (\<open>None\<close>).
\<close>

definition chan_trysend :: "'a chan \<Rightarrow> 'a \<Rightarrow> panic + 'a chan option" where
  "chan_trysend c x =
     (if chclosed c then Inl SendOnClosedChannel
      else if length (buf c) < cap c then Inr (Some (c\<lparr>buf := buf c @ [x]\<rparr>))
      else Inr None)"

text \<open>\<^verbatim>\<open>close(ch)\<close>: closing a closed channel panics.\<close>

definition chan_close :: "'a chan \<Rightarrow> panic + 'a chan" where
  "chan_close c = (if chclosed c then Inl CloseOfClosedChannel else Inr (c\<lparr>chclosed := True\<rparr>))"

text \<open>
  \<^verbatim>\<open>type eventStream struct { sync.Mutex; log; closed bool; streamCh chan eventData }\<close>.
  The model is sequential: every method runs to its end before the next one starts, which
  is what the mutex gives each critical section. The logger has no part in the state.
\<close>

record eventStream =
  closed :: bool
  streamCh :: "eventData chan"

text \<open>\<^verbatim>\<open>newEventStream(bufferSize int)\<close>; \<^verbatim>\<open>make\<close> panics on a negative size.\<close>

definition newEventStream :: "int \<Rightarrow> panic + eventStream" where
  "newEventStream bufferSize =
     (if bufferSize < 0 then Inl MakechanSizeOutOfRange
      else Inr \<lparr>closed = False,
                streamCh = \<lparr>buf = [], cap = nat bufferSize, chclosed = False\<rparr>\<rparr>)"

text \<open>\<^verbatim>\<open>func (s *eventStream) close()\<close>.\<close>

definition close :: "eventStream \<Rightarrow> panic + eventStream" where
  "close s =
     (if closed s then Inr s
      else (case chan_close (streamCh s) of
              Inl p \<Rightarrow> Inl p
            | Inr c \<Rightarrow> Inr (s\<lparr>closed := True, streamCh := c\<rparr>)))"

definition StreamClosed :: error where
  "StreamClosed = errors_New ''cannot notify closed stream''"

definition StreamFull :: error where
  "StreamFull = errors_New ''account event stream channel full''"

text \<open>
  \<^verbatim>\<open>func (s *eventStream) notify(e, r, m) error\<close>: the returned error (\<open>None\<close> is
  \<^verbatim>\<open>nil\<close>) and the stream after the call, or the panic that ends it.
\<close>

definition notify ::
  "eventStream \<Rightarrow> transactionEnvelope \<Rightarrow> transactionResult \<Rightarrow> transactionMeta
     \<Rightarrow> panic + (error option \<times> eventStream)" where
  "notify s e r m =
     (if closed s then Inr (Some StreamClosed, s)
      else (case chan_trysend (streamCh s) \<lparr>ed_e = e, ed_r = r, ed_m = m\<rparr> of
              Inl p \<Rightarrow> Inl p
            | Inr (Some c) \<Rightarrow> Inr (None, s\<lparr>streamCh := c\<rparr>)
            | Inr None \<Rightarrow>
                (case close s of
                   Inl p \<Rightarrow> Inl p
                 | Inr s' \<Rightarrow> Inr (Some StreamFull, s'))))"

text \<open>
  The subscriber's side, as the tests read the channel
  (\<^verbatim>\<open>select { case d, ok := <-s.streamCh: default: }\<close>): the head of the queue if there is
  one.
\<close>

definition receive :: "eventStream \<Rightarrow> eventData option \<times> eventStream" where
  "receive s =
     (case buf (streamCh s) of
        [] \<Rightarrow> (None, s)
      | d # ds \<Rightarrow> (Some d, s\<lparr>streamCh := (streamCh s)\<lparr>buf := ds\<rparr>\<rparr>))"

text \<open>
  The streams a program can hold: made by \<open>newEventStream\<close> and then only touched by
  \<open>notify\<close>, \<open>close\<close> and the subscriber's \<open>receive\<close>.
\<close>

inductive reachable :: "eventStream \<Rightarrow> bool" where
  r_new: "newEventStream n = Inr s \<Longrightarrow> reachable s"
| r_notify: "reachable s \<Longrightarrow> notify s e r m = Inr (res, s') \<Longrightarrow> reachable s'"
| r_close: "reachable s \<Longrightarrow> close s = Inr s' \<Longrightarrow> reachable s'"
| r_receive: "reachable s \<Longrightarrow> receive s = (d, s') \<Longrightarrow> reachable s'"

text \<open>A run of \<open>notify\<close> calls with nothing in between: the errors returned, in order.\<close>

fun notify_all :: "eventStream \<Rightarrow> eventData list \<Rightarrow> panic + (error option list \<times> eventStream)" where
  "notify_all s [] = Inr ([], s)"
| "notify_all s (d # ds) =
     (case notify s (ed_e d) (ed_r d) (ed_m d) of
        Inl p \<Rightarrow> Inl p
      | Inr (res, s') \<Rightarrow>
          (case notify_all s' ds of
             Inl p \<Rightarrow> Inl p
           | Inr (rs, s'') \<Rightarrow> Inr (res # rs, s'')))"

text \<open>\<open>close\<close> called \<open>n\<close> times in a row.\<close>

fun close_times :: "nat \<Rightarrow> eventStream \<Rightarrow> panic + eventStream" where
  "close_times 0 s = Inr s"
| "close_times (Suc n) s = (case close s of Inl p \<Rightarrow> Inl p | Inr s' \<Rightarrow> close_times n s')"

text \<open>The flag and the channel agree on every stream a program can hold.\<close>

definition stream_ok :: "eventStream \<Rightarrow> bool" where
  "stream_ok s = (closed s = chclosed (streamCh s))"

section \<open>The account notifier\<close>














definition test_stream :: eventStream where
  "test_stream = \<lparr>closed = False, streamCh = \<lparr>buf = [], cap = 5, chclosed = False\<rparr>\<rparr>"

definition test_envelope :: transactionEnvelope where
  "test_envelope =
     \<lparr>txSourceAccount = ''acc1'',
      txOperations = [\<lparr>opSourceAccount = Some ''acc2'', opBody = Payment ''acc3''\<rparr>]\<rparr>"

definition test_meta :: transactionMeta where
  "test_meta =
     [[\<lparr>lecType = LedgerEntryUpdated, lecAccount = ''acc1''\<rparr>,
       \<lparr>lecType = LedgerEntryUpdated, lecAccount = ''acc2''\<rparr>,
       \<lparr>lecType = LedgerEntryUpdated, lecAccount = ''acc3''\<rparr>]]"



section \<open>The ledger ingestor\<close>

text \<open>
  Modelled from the spec: the ingestor is not among the source files, only its test
  (stellar\_test.go) is. The model is the sequential reading of the pipeline: the ledgers
  arrive in the order the subscription pushes them, and the results are delivered in that
  order.
\<close>

text \<open>The chain version an ingestor is configured with (\<^verbatim>\<open>model.KinVersion_KIN3\<close> in the test).\<close>

datatype kinVersion = KinVersion_KIN2 | KinVersion_KIN3

text \<open>
  Modelled from the spec: a pointer encodes a ledger sequence number (and, as
  \<^verbatim>\<open>pointerFromSequence\<close> in the test shows, the chain version); the nil pointer is
  \<open>None\<close>.
\<close>

datatype pointer = Pointer kinVersion nat

definition pointerFromSequence :: "kinVersion \<Rightarrow> nat \<Rightarrow> pointer" where
  "pointerFromSequence v s = Pointer v s"

text \<open>
  Modelled from the spec: the cursor of a pointer has the sequence number in the high-order
  bits and the transaction index in the low-order bits (sequence times \<open>2^32\<close>), rendered in
  decimal; the nil pointer encodes to the zero token.
\<close>

definition cursorFromPointer :: "pointer option \<Rightarrow> string" where
  "cursorFromPointer p =
     (case p of None \<Rightarrow> ''0'' | Some (Pointer v s) \<Rightarrow> decimal (s * 2 ^ 32))"

text \<open>
  The types of the ledger API the test uses: the subscription request with its cursor and
  order, the ledger header with its sequence number, and the transaction of a page. The
  API carries envelope and result as base64 text; the record holds the bytes that text
  stands for.
\<close>

datatype order = OrderAsc | OrderDesc

record ledgerRequest =
  Cursor :: string
  Order :: order

record ledger =
  Sequence :: nat

record transaction =
  EnvelopeXdr :: bytes
  ResultXdr :: bytes

text \<open>
  The ledger API client: the subscription (a set-up error, or the ledger headers it pushes
  until it is cancelled) and the fetch of the transactions of one ledger.
\<close>

record horizonClient =
  StreamLedgers :: "ledgerRequest \<Rightarrow> error + ledger list"
  Transactions :: "nat \<Rightarrow> error + transaction list"

text \<open>
  Modelled from the spec: an entry is one persisted transaction: version tag, ledger
  sequence, envelope bytes, result bytes.
\<close>

record entry =
  Version :: kinVersion
  Ledger :: nat
  entryEnvelopeXdr :: bytes
  entryResultXdr :: bytes

text \<open>
  Modelled from the spec: the result of one ledger. \<open>Parent\<close> is \<open>None\<close> where the spec
  leaves it undefined (the first ledger of a run); \<open>Err\<close> is \<open>None\<close> for nil.
\<close>

record 'b result =
  Block :: 'b
  Parent :: "'b option"
  Err :: "error option"

text \<open>
  Modelled from the spec: a transaction becomes an entry tagged with the chain version and
  the ledger sequence.
\<close>

definition toEntry :: "kinVersion \<Rightarrow> nat \<Rightarrow> transaction \<Rightarrow> entry" where
  "toEntry v s t =
     \<lparr>Version = v, Ledger = s, entryEnvelopeXdr = EnvelopeXdr t, entryResultXdr = ResultXdr t\<rparr>"

text \<open>
  Modelled from the spec: for each ledger header, fetch the transactions of the ledger,
  convert each into an entry, write the batch through the writer (which takes the whole
  batch or fails it: \<open>accept\<close> says which), compute \<open>Block\<close> as the fingerprint \<open>fp\<close> of the
  entries and \<open>Parent\<close> as the \<open>Block\<close> of the ledger before; a fetch or write failure goes
  into \<open>Err\<close>, and the run goes on. Where the fetch fails no entry is ingested, and the
  fingerprint is that of no entries. The arguments \<open>prev\<close> and \<open>w\<close> are the \<open>Block\<close> of
  the ledger before and what the writer holds.
\<close>

fun ingestLedgers ::
  "kinVersion \<Rightarrow> horizonClient \<Rightarrow> (entry list \<Rightarrow> error option) \<Rightarrow> (entry list \<Rightarrow> 'b)
     \<Rightarrow> 'b option \<Rightarrow> entry list \<Rightarrow> ledger list \<Rightarrow> 'b result list \<times> entry list" where
  "ingestLedgers v c accept fp prev w [] = ([], w)"
| "ingestLedgers v c accept fp prev w (l # ls) =
     (case Transactions c (Sequence l) of
        Inl err \<Rightarrow>
          (let res = \<lparr>Block = fp [], Parent = prev, Err = Some err\<rparr>;
               (rs, w') = ingestLedgers v c accept fp (Some (Block res)) w ls
           in (res # rs, w'))
      | Inr txns \<Rightarrow>
          (let es = map (toEntry v (Sequence l)) txns;
               res = \<lparr>Block = fp es, Parent = prev, Err = accept es\<rparr>;
               w1 = (case accept es of None \<Rightarrow> w @ es | Some err \<Rightarrow> w);
               (rs, w') = ingestLedgers v c accept fp (Some (Block res)) w1 ls
           in (res # rs, w')))"

text \<open>
  Modelled from the spec: \<^verbatim>\<open>ingest(ctx, writer, startPointer)\<close> opens the subscription at
  the cursor of the pointer, in ascending order, and fails when it cannot be set up. The
  result is the list of the subscription requests made, and the error or the ordered
  results with what the writer holds at the end.
\<close>

definition Ingest ::
  "kinVersion \<Rightarrow> horizonClient \<Rightarrow> (entry list \<Rightarrow> error option) \<Rightarrow> (entry list \<Rightarrow> 'b)
     \<Rightarrow> entry list \<Rightarrow> pointer option
     \<Rightarrow> ledgerRequest list \<times> (error + 'b result list \<times> entry list)" where
  "Ingest v c accept fp w p =
     (let req = \<lparr>Cursor = cursorFromPointer p, Order = OrderAsc\<rparr>
      in (case StreamLedgers c req of
            Inl err \<Rightarrow> ([req], Inl err)
          | Inr ls \<Rightarrow> ([req], Inr (ingestLedgers v c accept fp None w ls))))"

text \<open>The transaction pages of the ledgers of a run (empty where the fetch fails).\<close>

definition pageOf :: "horizonClient \<Rightarrow> ledger \<Rightarrow> transaction list" where
  "pageOf c l = (case Transactions c (Sequence l) of Inl err \<Rightarrow> [] | Inr txns \<Rightarrow> txns)"

text \<open>Every fetch succeeds and the writer takes every batch.\<close>

definition noFailure ::
  "kinVersion \<Rightarrow> horizonClient \<Rightarrow> (entry list \<Rightarrow> error option) \<Rightarrow> ledger list \<Rightarrow> bool" where
  "noFailure v c accept ls =
     list_all (\<lambda>l. case Transactions c (Sequence l) of
                     Inl err \<Rightarrow> False
                   | Inr txns \<Rightarrow> accept (map (toEntry v (Sequence l)) txns) = None) ls"

text \<open>
  A client in the manner of the test \<^verbatim>\<open>TestRoundTrip\<close>: the subscription pushes the
  ledgers 0, 1, 2, and ledger \<open>n\<close> holds two transactions.
\<close>

definition test_txn :: "nat \<Rightarrow> nat \<Rightarrow> transaction" where
  "test_txn n j = \<lparr>EnvelopeXdr = [of_nat n, of_nat j], ResultXdr = [of_nat j]\<rparr>"

definition test_client :: horizonClient where
  "test_client =
     \<lparr>StreamLedgers = (\<lambda>req. Inr [\<lparr>Sequence = 0\<rparr>, \<lparr>Sequence = 1\<rparr>, \<lparr>Sequence = 2\<rparr>]),
      Transactions = (\<lambda>n. Inr [test_txn n 0, test_txn n 1])\<rparr>"

section \<open>The invoice store (pkg/invoice/dynamodb/dynamodb.go)\<close>

datatype attributeValue = AttrB bytes | AttrS string | AttrN string

text \<open>An item is a Go map from attribute names to values; its length is its number of keys.\<close>

type_synonym item = "(string \<times> attributeValue) list"

record getItemInput =
  TableName :: string
  Key :: item



section \<open>The account info cache (pkg/account/solana/accountinfo/dynamodb/cache.go)\<close>

text \<open>An instant, in nanoseconds since the Unix epoch; \<^verbatim>\<open>t.Before(u)\<close> is \<open>t < u\<close>.\<close>

type_synonym instant = int

record cacheTable =
  ai_tableNameStr :: string
  ai_tableHashKey :: string

text \<open>
  \<^verbatim>\<open>func (c *cache) Get(ctx, key)\<close>. The datastore is the function \<open>send\<close>, \<open>now\<close> is what
  \<^verbatim>\<open>time.Now()\<close> returns, and \<^verbatim>\<open>fromItem\<close>, declared outside the given source files, is a
  parameter: it decodes an item into the account info and its expiry.
\<close>

definition cache_Get ::
  "cacheTable \<Rightarrow> (getItemInput \<Rightarrow> error + item) \<Rightarrow> (item \<Rightarrow> error + 'info \<times> instant)
     \<Rightarrow> instant \<Rightarrow> bytes \<Rightarrow> error + 'info" where
  "cache_Get tbl send fromItem now key =
     (case send \<lparr>TableName = ai_tableNameStr tbl,
                 Key = [(ai_tableHashKey tbl, AttrB key)]\<rparr> of
        Inl err \<Rightarrow> Inl (errors_Wrap err ''failed to get account info'')
      | Inr it \<Rightarrow>
          if length it = 0 then Inl ErrAccountInfoNotFound
          else (case fromItem it of
                  Inl err \<Rightarrow> Inl err
                | Inr (info, expiry) \<Rightarrow>
                    if expiry < now then Inl ErrAccountInfoNotFound else Inr info))"

section \<open>Sample data\<close>

text \<open>An event, and a store in which every stream is a fresh one of capacity 5.\<close>

definition sample_event :: eventData where
  "sample_event = \<lparr>ed_e = \<lparr>txSourceAccount = ''A'', txOperations = []\<rparr>, ed_r = [], ed_m = []\<rparr>"



definition test_empty_send :: "getItemInput \<Rightarrow> error + item" where
  "test_empty_send req = Inr []"

definition test_item :: item where
  "test_item = [(''contents'', AttrB [1, 2, 3])]"

definition test_item_send :: "getItemInput \<Rightarrow> error + item" where
  "test_item_send req = Inr test_item"




definition test_cacheTable :: cacheTable where
  "test_cacheTable = \<lparr>ai_tableNameStr = ''account-info'', ai_tableHashKey = ''key''\<rparr>"

definition test_cache_fromItem :: "item \<Rightarrow> error + string \<times> instant" where
  "test_cache_fromItem it = Inr (''info'', 100)"

section \<open>Theorems: the event stream\<close>

lemma notify_stream_ok:
  "stream_ok s \<Longrightarrow> notify s e r m = Inr (res, s') \<Longrightarrow> stream_ok s'"
  by (auto simp: stream_ok_def notify_def chan_trysend_def close_def chan_close_def
      split: if_splits)

lemma close_stream_ok: "stream_ok s \<Longrightarrow> close s = Inr s' \<Longrightarrow> stream_ok s'"
  by (auto simp: stream_ok_def close_def chan_close_def split: if_splits)

lemma receive_stream_ok: "stream_ok s \<Longrightarrow> receive s = (d, s') \<Longrightarrow> stream_ok s'"
  by (auto simp: stream_ok_def receive_def split: list.splits)

lemma reachable_stream_ok: "reachable s \<Longrightarrow> stream_ok s"
proof (induction rule: reachable.induct)
  case (r_new n s)
  then show ?case
    by (auto simp: newEventStream_def stream_ok_def split: if_splits)
next
  case (r_notify s e r m res s')
  then show ?case by (blast intro: notify_stream_ok)
next
  case (r_close s s')
  then show ?case by (blast intro: close_stream_ok)
next
  case (r_receive s d s')
  then show ?case by (blast intro: receive_stream_ok)
qed

text \<open>
  C6. On a stream whose closed flag is set, \<open>notify\<close> returns the stream-closed error and
  leaves the stream (the queue, the flag, the channel) exactly as it was.
\<close>

theorem notify_closed_noop:
  "closed s \<Longrightarrow> notify s e r m = Inr (Some StreamClosed, s)"
  by (simp add: notify_def)


text \<open>A closed stream with one queued event.\<close>

theorem notify_closed_noop_witness:
  "closed \<lparr>closed = True, streamCh = \<lparr>buf = [sample_event], cap = 1, chclosed = True\<rparr>\<rparr> \<and>
   notify \<lparr>closed = True, streamCh = \<lparr>buf = [sample_event], cap = 1, chclosed = True\<rparr>\<rparr>
     (ed_e sample_event) (ed_r sample_event) (ed_m sample_event)
   = Inr (Some (errors_New ''cannot notify closed stream''),
          \<lparr>closed = True, streamCh = \<lparr>buf = [sample_event], cap = 1, chclosed = True\<rparr>\<rparr>)"
  using notify_closed_noop [of "\<lparr>closed = True, streamCh = \<lparr>buf = [sample_event], cap = 1, chclosed = True\<rparr>\<rparr>"
      "ed_e sample_event" "ed_r sample_event" "ed_m sample_event"]
  by (simp add: StreamClosed_def)

text \<open>
  C8. On a stream a program can hold that is not closed and whose queue holds fewer events
  than its capacity, \<open>notify\<close> returns no error, and the stream afterwards is the
  stream before with the event appended at the tail of the queue and nothing else changed.
\<close>

theorem notify_room_enqueues:
  assumes "reachable s" and "\<not> closed s" and "length (buf (streamCh s)) < cap (streamCh s)"
  shows "notify s e r m =
           Inr (None, s\<lparr>streamCh := (streamCh s)\<lparr>buf := buf (streamCh s) @ [\<lparr>ed_e = e, ed_r = r, ed_m = m\<rparr>]\<rparr>\<rparr>)"
proof -
  from assms(1) have "stream_ok s" by (rule reachable_stream_ok)
  with assms(2) have "\<not> chclosed (streamCh s)" by (simp add: stream_ok_def)
  with assms(2,3) show ?thesis by (simp add: notify_def chan_trysend_def)
qed

theorem notify_room_enqueues_witness:
  "reachable test_stream \<and> \<not> closed test_stream
   \<and> length (buf (streamCh test_stream)) < cap (streamCh test_stream)
   \<and> notify test_stream test_envelope [] test_meta =
       Inr (None, \<lparr>closed = False,
                   streamCh = \<lparr>buf = [\<lparr>ed_e = test_envelope, ed_r = [], ed_m = test_meta\<rparr>],
                               cap = 5, chclosed = False\<rparr>\<rparr>)"
proof -
  have r: "reachable test_stream"
    by (rule r_new [of 5]) (simp add: newEventStream_def test_stream_def)
  have c: "\<not> closed test_stream" by (simp add: test_stream_def)
  have l: "length (buf (streamCh test_stream)) < cap (streamCh test_stream)"
    by (simp add: test_stream_def)
  show ?thesis
    using r c l notify_room_enqueues [OF r c l, of test_envelope "[]" test_meta]
    by (simp add: test_stream_def)
qed

lemma close_once:
  assumes "stream_ok s"
  shows "close s = Inr (s\<lparr>closed := True, streamCh := (streamCh s)\<lparr>chclosed := True\<rparr>\<rparr>)"
  using assms by (cases s) (auto simp: close_def chan_close_def stream_ok_def)

lemma close_again: "closed s \<Longrightarrow> close_times n s = Inr s"
  by (induction n) (simp_all add: close_def)

text \<open>
  C7. On every stream a program can hold, \<open>close\<close> returns without a panic and leaves the
  stream closed, its channel closed and its queue and capacity as they were; a further
  \<open>close\<close> leaves that stream unchanged, again without a panic, and so does any number
  of calls: calling it twice gives what calling it once gives.
\<close>

theorem close_idempotent:
  assumes "reachable s"
  shows "\<exists>s1. close s = Inr s1 \<and> closed s1 \<and> chclosed (streamCh s1)
           \<and> buf (streamCh s1) = buf (streamCh s) \<and> cap (streamCh s1) = cap (streamCh s)
           \<and> close s1 = Inr s1
           \<and> (\<forall>n. close_times (Suc n) s = Inr s1)"
proof -
  let ?s1 = "s\<lparr>closed := True, streamCh := (streamCh s)\<lparr>chclosed := True\<rparr>\<rparr>"
  from assms have ok: "stream_ok s" by (rule reachable_stream_ok)
  then have c: "close s = Inr ?s1" by (rule close_once)
  have cl: "closed ?s1" by simp
  then have "close ?s1 = Inr ?s1" by (simp add: close_def)
  moreover have "\<forall>n. close_times (Suc n) s = Inr ?s1"
    using c close_again [OF cl] by simp
  ultimately show ?thesis using c by simp
qed

theorem close_idempotent_witness:
  "reachable test_stream
   \<and> close test_stream = Inr \<lparr>closed = True, streamCh = \<lparr>buf = [], cap = 5, chclosed = True\<rparr>\<rparr>
   \<and> close \<lparr>closed = True, streamCh = \<lparr>buf = [], cap = 5, chclosed = True\<rparr>\<rparr>
       = Inr \<lparr>closed = True, streamCh = \<lparr>buf = [], cap = 5, chclosed = True\<rparr>\<rparr>
   \<and> close_times 2 test_stream
       = Inr \<lparr>closed = True, streamCh = \<lparr>buf = [], cap = 5, chclosed = True\<rparr>\<rparr>"
proof -
  have r: "reachable test_stream"
    by (rule r_new [of 5]) (simp add: newEventStream_def test_stream_def)
  from close_idempotent [OF r] obtain s1 where
    s1: "close test_stream = Inr s1" "close s1 = Inr s1" "\<forall>n. close_times (Suc n) test_stream = Inr s1"
    by blast
  have "close test_stream = Inr \<lparr>closed = True, streamCh = \<lparr>buf = [], cap = 5, chclosed = True\<rparr>\<rparr>"
    by (simp add: close_def chan_close_def test_stream_def)
  with s1(1) have eq: "s1 = \<lparr>closed = True, streamCh = \<lparr>buf = [], cap = 5, chclosed = True\<rparr>\<rparr>"
    by simp
  from s1(3) have "close_times (Suc (Suc 0)) test_stream = Inr s1" by blast
  then have "close_times 2 test_stream = Inr s1" by (simp add: numeral_2_eq_2)
  with r s1 eq show ?thesis by simp
qed

lemma notify_all_append:
  "notify_all s (xs @ ys) =
     (case notify_all s xs of
        Inl p \<Rightarrow> Inl p
      | Inr (rs, s') \<Rightarrow>
          (case notify_all s' ys of
             Inl p \<Rightarrow> Inl p
           | Inr (rs', s'') \<Rightarrow> Inr (rs @ rs', s'')))"
  by (induction xs arbitrary: s) (auto split: sum.splits prod.splits)

lemma notify_all_fill:
  "\<not> closed s \<Longrightarrow> \<not> chclosed (streamCh s) \<Longrightarrow> length (buf (streamCh s)) + length ds \<le> cap (streamCh s) \<Longrightarrow>
   notify_all s ds =
     Inr (replicate (length ds) None, s\<lparr>streamCh := (streamCh s)\<lparr>buf := buf (streamCh s) @ ds\<rparr>\<rparr>)"
proof (induction ds arbitrary: s)
  case Nil
  then show ?case by simp
next
  case (Cons d ds)
  let ?s' = "s\<lparr>streamCh := (streamCh s)\<lparr>buf := buf (streamCh s) @ [d]\<rparr>\<rparr>"
  from Cons.prems have n: "notify s (ed_e d) (ed_r d) (ed_m d) = Inr (None, ?s')"
    by (simp add: notify_def chan_trysend_def)
  from Cons.prems have "notify_all ?s' ds =
     Inr (replicate (length ds) None, ?s'\<lparr>streamCh := (streamCh ?s')\<lparr>buf := buf (streamCh ?s') @ ds\<rparr>\<rparr>)"
    by (intro Cons.IH) simp_all
  with n show ?case by simp
qed

lemma notify_all_closed:
  "closed s \<Longrightarrow> notify_all s ds = Inr (replicate (length ds) (Some StreamClosed), s)"
  by (induction ds) (simp_all add: notify_def)

lemma notify_full:
  "\<not> closed s \<Longrightarrow> \<not> chclosed (streamCh s) \<Longrightarrow> cap (streamCh s) \<le> length (buf (streamCh s)) \<Longrightarrow>
   notify s e r m = Inr (Some StreamFull, s\<lparr>closed := True, streamCh := (streamCh s)\<lparr>chclosed := True\<rparr>\<rparr>)"
  by (simp add: notify_def chan_trysend_def close_def chan_close_def)

text \<open>
  C2. A fresh stream of capacity \<open>K\<close> that gets \<open>K + 1\<close> or more \<open>notify\<close> calls with
  no \<open>receive\<close> in between: the first \<open>K\<close> calls return no error, call \<open>K + 1\<close>
  returns the stream-full error and closes the stream, and every later call returns the
  stream-closed error; the queue holds the first \<open>K\<close> events.
\<close>

theorem notify_overflow:
  assumes new: "newEventStream (int K) = Inr s0" and len: "length ds = K"
  shows "notify_all s0 (ds @ d # rest) =
           Inr (replicate K None @ Some StreamFull # replicate (length rest) (Some StreamClosed),
                \<lparr>closed = True, streamCh = \<lparr>buf = ds, cap = K, chclosed = True\<rparr>\<rparr>)"
proof -
  from new have s0: "s0 = \<lparr>closed = False, streamCh = \<lparr>buf = [], cap = K, chclosed = False\<rparr>\<rparr>"
    by (simp add: newEventStream_def)
  let ?s1 = "\<lparr>closed = False, streamCh = \<lparr>buf = ds, cap = K, chclosed = False\<rparr>\<rparr>"
  let ?s2 = "\<lparr>closed = True, streamCh = \<lparr>buf = ds, cap = K, chclosed = True\<rparr>\<rparr>"
  have fill: "notify_all s0 ds = Inr (replicate K None, ?s1)"
    using notify_all_fill [of s0 ds] len by (simp add: s0)
  have full: "notify ?s1 (ed_e d) (ed_r d) (ed_m d) = Inr (Some StreamFull, ?s2)"
    using notify_full [of ?s1] len by simp
  have after: "notify_all ?s2 rest = Inr (replicate (length rest) (Some StreamClosed), ?s2)"
    by (rule notify_all_closed) simp
  show ?thesis
    by (simp add: notify_all_append fill full after)
qed

theorem notify_overflow_witness:
  "newEventStream (int 1) = Inr \<lparr>closed = False, streamCh = \<lparr>buf = [], cap = 1, chclosed = False\<rparr>\<rparr>
   \<and> length [sample_event] = 1
   \<and> notify_all \<lparr>closed = False, streamCh = \<lparr>buf = [], cap = 1, chclosed = False\<rparr>\<rparr>
       ([sample_event] @ sample_event # [sample_event, sample_event]) =
       Inr ([None, Some StreamFull, Some StreamClosed, Some StreamClosed],
            \<lparr>closed = True, streamCh = \<lparr>buf = [sample_event], cap = 1, chclosed = True\<rparr>\<rparr>)"
proof -
  have n: "newEventStream (int 1) = Inr \<lparr>closed = False, streamCh = \<lparr>buf = [], cap = 1, chclosed = False\<rparr>\<rparr>"
    by (simp add: newEventStream_def)
  have l: "length [sample_event] = 1" by simp
  show ?thesis
    using n l notify_overflow [OF n l, of sample_event "[sample_event, sample_event]"]
    by (simp add: numeral_2_eq_2)
qed


section \<open>Theorems: the account notifier\<close>



























section \<open>Theorems: the ledger ingestor\<close>

lemma ingestLedgers_Cons:
  "ingestLedgers v c accept fp prev w (l # ls) =
     (let es = map (toEntry v (Sequence l)) (pageOf c l);
          err = (case Transactions c (Sequence l) of Inl e \<Rightarrow> Some e | Inr txns \<Rightarrow> accept es);
          res = \<lparr>Block = fp es, Parent = prev, Err = err\<rparr>;
          rest = ingestLedgers v c accept fp (Some (fp es)) (if err = None then w @ es else w) ls
      in (res # fst rest, snd rest))"
  by (auto simp: Let_def pageOf_def split: sum.splits prod.splits option.splits)

lemma ingestLedgers_length:
  "length (fst (ingestLedgers v c accept fp prev w ls)) = length ls"
  by (induction ls arbitrary: prev w) (simp_all add: ingestLedgers_Cons Let_def del: ingestLedgers.simps(2))

lemma ingestLedgers_head:
  "ls \<noteq> [] \<Longrightarrow> Parent (hd (fst (ingestLedgers v c accept fp prev w ls))) = prev"
  by (cases ls) (simp_all add: ingestLedgers_Cons Let_def del: ingestLedgers.simps(2))

lemma ingestLedgers_chain:
  "Suc i < length ls \<Longrightarrow>
   Parent (fst (ingestLedgers v c accept fp prev w ls) ! Suc i)
     = Some (Block (fst (ingestLedgers v c accept fp prev w ls) ! i))"
proof (induction ls arbitrary: prev w i)
  case Nil
  then show ?case by simp
next
  case (Cons l ls)
  let ?es = "map (toEntry v (Sequence l)) (pageOf c l)"
  let ?err = "case Transactions c (Sequence l) of Inl e \<Rightarrow> Some e | Inr txns \<Rightarrow> accept ?es"
  let ?rest = "fst (ingestLedgers v c accept fp (Some (fp ?es)) (if ?err = None then w @ ?es else w) ls)"
  have rs: "fst (ingestLedgers v c accept fp prev w (l # ls))
              = \<lparr>Block = fp ?es, Parent = prev, Err = ?err\<rparr> # ?rest"
    by (simp add: ingestLedgers_Cons Let_def del: ingestLedgers.simps(2))
  show ?case
  proof (cases i)
    case 0
    with Cons.prems have ne: "ls \<noteq> []" by auto
    then have "?rest \<noteq> []"
      using ingestLedgers_length [of v c accept fp "Some (fp ?es)" "if ?err = None then w @ ?es else w" ls]
      by auto
    then have "?rest ! 0 = hd ?rest" by (simp add: hd_conv_nth)
    with ne 0 show ?thesis
      unfolding rs by (simp add: ingestLedgers_head)
  next
    case (Suc j)
    with Cons.prems have "Suc j < length ls" by simp
    then have "Parent (?rest ! Suc j) = Some (Block (?rest ! j))" by (rule Cons.IH)
    with Suc show ?thesis unfolding rs by simp
  qed
qed

lemma ingestLedgers_writes:
  "snd (ingestLedgers v c accept fp prev w ls)
     = w @ concat (map2 (\<lambda>l r. if Err r = None then map (toEntry v (Sequence l)) (pageOf c l) else [])
                     ls (fst (ingestLedgers v c accept fp prev w ls)))"
  by (induction ls arbitrary: prev w)
     (simp_all add: ingestLedgers_Cons Let_def del: ingestLedgers.simps(2))

lemma ingestLedgers_Err:
  "i < length ls \<Longrightarrow>
   Err (fst (ingestLedgers v c accept fp prev w ls) ! i)
     = (case Transactions c (Sequence (ls ! i)) of
          Inl e \<Rightarrow> Some e
        | Inr txns \<Rightarrow> accept (map (toEntry v (Sequence (ls ! i))) txns))"
proof (induction ls arbitrary: prev w i)
  case Nil
  then show ?case by simp
next
  case (Cons l ls)
  then show ?case
    by (cases i) (auto simp: ingestLedgers_Cons Let_def pageOf_def simp del: ingestLedgers.simps(2)
        split: sum.splits)
qed

lemma noFailure_Err:
  assumes "noFailure v c accept ls"
  shows "\<forall>r\<in>set (fst (ingestLedgers v c accept fp prev w ls)). Err r = None"
proof -
  let ?rs = "fst (ingestLedgers v c accept fp prev w ls)"
  have "Err (?rs ! i) = None" if "i < length ls" for i
  proof -
    from assms that have "case Transactions c (Sequence (ls ! i)) of
                     Inl err \<Rightarrow> False
                   | Inr txns \<Rightarrow> accept (map (toEntry v (Sequence (ls ! i))) txns) = None"
      by (simp add: noFailure_def list_all_length)
    then show ?thesis
      by (simp add: ingestLedgers_Err [OF that] split: sum.splits)
  qed
  then show ?thesis
    by (auto simp: in_set_conv_nth ingestLedgers_length)
qed

lemma decimal_digit: "n < 10 \<Longrightarrow> decimal n = [digit_char n]"
  by (simp add: decimal.simps)

lemma decimal_step: "10 \<le> n \<Longrightarrow> decimal n = decimal (n div 10) @ [digit_char (n mod 10)]"
  by (subst decimal.simps) simp

lemma decimal_4398046511104: "decimal 4398046511104 = ''4398046511104''"
  by (simp add: decimal_digit decimal_step digit_char_def)

lemma decimal_1024: "decimal (1024 * 2 ^ 32) = ''4398046511104''"
proof -
  have "(1024::nat) * 2 ^ 32 = 4398046511104" by simp
  then show ?thesis by (simp only: decimal_4398046511104)
qed

lemma Ingest_Inr:
  assumes "Ingest v c accept fp w p = (reqs, Inr (rs, w'))"
  obtains ls where "StreamLedgers c \<lparr>Cursor = cursorFromPointer p, Order = OrderAsc\<rparr> = Inr ls"
    and "rs = fst (ingestLedgers v c accept fp None w ls)"
    and "w' = snd (ingestLedgers v c accept fp None w ls)"
proof (cases "StreamLedgers c \<lparr>Cursor = cursorFromPointer p, Order = OrderAsc\<rparr>")
  case (Inl err)
  with assms show ?thesis by (simp add: Ingest_def)
next
  case (Inr ls)
  with assms have "ingestLedgers v c accept fp None w ls = (rs, w')"
    by (simp add: Ingest_def)
  then have "rs = fst (ingestLedgers v c accept fp None w ls)"
    and "w' = snd (ingestLedgers v c accept fp None w ls)"
    by simp_all
  with Inr that show ?thesis by blast
qed

lemma test_client_run:
  "Ingest KinVersion_KIN3 test_client (\<lambda>es. None) (\<lambda>es. es) [] None =
     ([\<lparr>Cursor = ''0'', Order = OrderAsc\<rparr>],
      Inr (fst (ingestLedgers KinVersion_KIN3 test_client (\<lambda>es. None) (\<lambda>es. es) None []
                  [\<lparr>Sequence = 0\<rparr>, \<lparr>Sequence = 1\<rparr>, \<lparr>Sequence = 2\<rparr>]),
           snd (ingestLedgers KinVersion_KIN3 test_client (\<lambda>es. None) (\<lambda>es. es) None []
                  [\<lparr>Sequence = 0\<rparr>, \<lparr>Sequence = 1\<rparr>, \<lparr>Sequence = 2\<rparr>])))"
  by (simp add: Ingest_def cursorFromPointer_def test_client_def)

lemma test_client_sub:
  "StreamLedgers test_client \<lparr>Cursor = ''0'', Order = OrderAsc\<rparr>
     = Inr [\<lparr>Sequence = 0\<rparr>, \<lparr>Sequence = 1\<rparr>, \<lparr>Sequence = 2\<rparr>]"
  by (simp add: test_client_def)

lemma test_client_noFailure:
  "noFailure KinVersion_KIN3 test_client (\<lambda>es. None)
     [\<lparr>Sequence = 0\<rparr>, \<lparr>Sequence = 1\<rparr>, \<lparr>Sequence = 2\<rparr>]"
  by (simp add: noFailure_def test_client_def)

lemma test_client_page: "pageOf test_client l = [test_txn (Sequence l) 0, test_txn (Sequence l) 1]"
  by (simp add: pageOf_def test_client_def)


text \<open>
  C4. Every call to \<open>Ingest\<close> makes one subscription request; it asks for ascending
  order, and its cursor is \<open>0\<close> for the nil pointer and the decimal rendering of
  \<open>s * 2^32\<close> for a pointer of sequence \<open>s\<close>: sequence 1024 gives the cursor
  4398046511104.
\<close>

theorem ingest_request:
  "fst (Ingest v c accept fp w p) =
     [\<lparr>Cursor = (case p of None \<Rightarrow> ''0'' | Some (Pointer pv s) \<Rightarrow> decimal (s * 2 ^ 32)),
       Order = OrderAsc\<rparr>]
   \<and> cursorFromPointer (Some (pointerFromSequence v s)) = decimal (s * 2 ^ 32)
   \<and> cursorFromPointer (Some (pointerFromSequence KinVersion_KIN3 1024)) = ''4398046511104''"
proof -
  have "fst (Ingest v c accept fp w p) = [\<lparr>Cursor = cursorFromPointer p, Order = OrderAsc\<rparr>]"
    by (simp add: Ingest_def Let_def split: sum.splits)
  moreover have "cursorFromPointer (Some (pointerFromSequence v s)) = decimal (s * 2 ^ 32)" for v s
    by (simp add: cursorFromPointer_def pointerFromSequence_def)
  ultimately show ?thesis
    using decimal_1024 by (simp add: cursorFromPointer_def)
qed


text \<open>
  C1. In the results of one \<open>Ingest\<close> run of which none carries an error, the \<open>Parent\<close>
  of every result but the first is the \<open>Block\<close> of the result before it; the first
  result of any run has no \<open>Parent\<close>; and in a run from the nil pointer in which no fetch
  and no write fails, there is one result per ledger pushed and no result carries an
  error, the first one included.
\<close>

theorem ingest_parent_chain:
  assumes run: "Ingest v c accept fp w p = (reqs, Inr (rs, w'))"
  shows "((\<forall>r\<in>set rs. Err r = None) \<longrightarrow>
            (\<forall>i. 0 < i \<and> i < length rs \<longrightarrow> Parent (rs ! i) = Some (Block (rs ! (i - 1)))))
       \<and> (rs \<noteq> [] \<longrightarrow> Parent (rs ! 0) = None)
       \<and> (\<forall>ls. p = None \<and> StreamLedgers c \<lparr>Cursor = ''0'', Order = OrderAsc\<rparr> = Inr ls
                \<and> noFailure v c accept ls \<longrightarrow>
                length rs = length ls \<and> (\<forall>r\<in>set rs. Err r = None)
                \<and> (rs \<noteq> [] \<longrightarrow> Err (rs ! 0) = None))"
proof -
  from run obtain ls0 where
    sub: "StreamLedgers c \<lparr>Cursor = cursorFromPointer p, Order = OrderAsc\<rparr> = Inr ls0"
    and rs: "rs = fst (ingestLedgers v c accept fp None w ls0)"
    by (rule Ingest_Inr)
  have len: "length rs = length ls0" by (simp add: rs ingestLedgers_length)
  have chain: "Parent (rs ! i) = Some (Block (rs ! (i - 1)))" if "0 < i" "i < length rs" for i
  proof -
    from that obtain j where j: "i = Suc j" by (cases i) auto
    with that len have "Suc j < length ls0" by simp
    then show ?thesis unfolding rs j by (simp add: ingestLedgers_chain)
  qed
  have first: "Parent (rs ! 0) = None" if "rs \<noteq> []"
  proof -
    from that len have "ls0 \<noteq> []" by auto
    then have "Parent (hd rs) = None" unfolding rs by (rule ingestLedgers_head)
    with that show ?thesis by (simp add: hd_conv_nth)
  qed
  have cold: "length rs = length ls \<and> (\<forall>r\<in>set rs. Err r = None) \<and> (rs \<noteq> [] \<longrightarrow> Err (rs ! 0) = None)"
    if "p = None" "StreamLedgers c \<lparr>Cursor = ''0'', Order = OrderAsc\<rparr> = Inr ls"
       "noFailure v c accept ls" for ls
  proof -
    from that(1,2) sub have "ls0 = ls" by (simp add: cursorFromPointer_def)
    with that(3) have "\<forall>r\<in>set rs. Err r = None" unfolding rs by (simp add: noFailure_Err)
    moreover have "rs ! 0 \<in> set rs" if "rs \<noteq> []" using that by simp
    ultimately show ?thesis using len \<open>ls0 = ls\<close> by auto
  qed
  from chain first cold show ?thesis by blast
qed


theorem ingest_parent_chain_witness:
  "\<exists>reqs rs w'.
     Ingest KinVersion_KIN3 test_client (\<lambda>es. None) (\<lambda>es. es) [] None = (reqs, Inr (rs, w'))
   \<and> length rs = 3
   \<and> Err (rs ! 0) = None \<and> Err (rs ! 1) = None \<and> Err (rs ! 2) = None
   \<and> Parent (rs ! 0) = None
   \<and> Parent (rs ! 1) = Some (Block (rs ! 0))
   \<and> Parent (rs ! 2) = Some (Block (rs ! 1))"
proof -
  let ?ls = "[\<lparr>Sequence = 0\<rparr>, \<lparr>Sequence = 1\<rparr>, \<lparr>Sequence = 2\<rparr>]"
  let ?run = "ingestLedgers KinVersion_KIN3 test_client (\<lambda>es. None) (\<lambda>es. es) None [] ?ls"
  let ?rs = "fst ?run"
  note main = ingest_parent_chain [OF test_client_run]
  from main have cold: "length ?rs = length ?ls \<and> (\<forall>r\<in>set ?rs. Err r = None)"
    using test_client_sub test_client_noFailure by blast
  then have len: "length ?rs = 3" by simp
  from cold have errs: "\<forall>r\<in>set ?rs. Err r = None" by blast
  have mem: "?rs ! 0 \<in> set ?rs" "?rs ! 1 \<in> set ?rs" "?rs ! 2 \<in> set ?rs"
    using len by (simp_all del: ingestLedgers.simps)
  with errs have e: "Err (?rs ! 0) = None" "Err (?rs ! 1) = None" "Err (?rs ! 2) = None"
    by blast+
  from len have ne: "?rs \<noteq> []" by auto
  with main have p0: "Parent (?rs ! 0) = None" by blast
  from main errs have ch: "\<forall>i. 0 < i \<and> i < length ?rs \<longrightarrow> Parent (?rs ! i) = Some (Block (?rs ! (i - 1)))"
    by blast
  have p1: "Parent (?rs ! 1) = Some (Block (?rs ! 0))"
    using ch [rule_format, of 1] len by (simp del: ingestLedgers.simps)
  have p2: "Parent (?rs ! 2) = Some (Block (?rs ! 1))"
    using ch [rule_format, of 2] len by (simp del: ingestLedgers.simps)
  show ?thesis
    by (intro exI conjI) (rule test_client_run len e p0 p1 p2)+
qed


text \<open>
  C5. What the writer holds after a run is what it held before followed by, ledger after
  ledger in the order pushed, one entry per transaction of every ledger whose result
  carries no error; each entry has the configured version, the sequence of its ledger and
  the envelope and result bytes of its transaction. When no result carries an error, the
  number of entries written is the sum of the transaction counts of the ledgers.
\<close>

theorem ingest_entries:
  assumes run: "Ingest v c accept fp w p = (reqs, Inr (rs, w'))"
    and sub: "StreamLedgers c \<lparr>Cursor = cursorFromPointer p, Order = OrderAsc\<rparr> = Inr ls"
  shows "length rs = length ls
       \<and> w' = w @ concat (map2 (\<lambda>l r. if Err r = None
                                         then map (\<lambda>t. \<lparr>Version = v, Ledger = Sequence l,
                                                        entryEnvelopeXdr = EnvelopeXdr t,
                                                        entryResultXdr = ResultXdr t\<rparr>) (pageOf c l)
                                         else []) ls rs)
       \<and> ((\<forall>r\<in>set rs. Err r = None) \<longrightarrow>
            w' = w @ concat (map (\<lambda>l. map (\<lambda>t. \<lparr>Version = v, Ledger = Sequence l,
                                                  entryEnvelopeXdr = EnvelopeXdr t,
                                                  entryResultXdr = ResultXdr t\<rparr>) (pageOf c l)) ls)
          \<and> length w' = length w + sum_list (map (\<lambda>l. length (pageOf c l)) ls))"
proof -
  let ?entries = "\<lambda>l. map (\<lambda>t. \<lparr>Version = v, Ledger = Sequence l,
                                 entryEnvelopeXdr = EnvelopeXdr t,
                                 entryResultXdr = ResultXdr t\<rparr>) (pageOf c l)"
  have te: "map (toEntry v (Sequence l)) (pageOf c l) = ?entries l" for l
    by (simp add: toEntry_def)
  from run sub have rs: "rs = fst (ingestLedgers v c accept fp None w ls)"
    and w': "w' = snd (ingestLedgers v c accept fp None w ls)"
    by (auto elim!: Ingest_Inr)
  have len: "length rs = length ls" by (simp add: rs ingestLedgers_length)
  have writes: "w' = w @ concat (map2 (\<lambda>l r. if Err r = None then ?entries l else []) ls rs)"
    unfolding w' rs using ingestLedgers_writes [of v c accept fp None w ls] by (simp only: te)
  have all: "w' = w @ concat (map ?entries ls)
           \<and> length w' = length w + sum_list (map (\<lambda>l. length (pageOf c l)) ls)"
    if ok: "\<forall>r\<in>set rs. Err r = None"
  proof -
    have "map2 (\<lambda>l r. if Err r = None then ?entries l else []) ls rs = map ?entries ls"
      using len ok
    proof (induction ls rs rule: list_induct2')
      case (4 l ls r rs)
      then show ?case by simp
    qed simp_all
    with writes have eq: "w' = w @ concat (map ?entries ls)" by simp
    have "length (concat (map ?entries ls)) = sum_list (map (\<lambda>l. length (pageOf c l)) ls)"
      by (simp add: length_concat comp_def)
    with eq show ?thesis by simp
  qed
  from len writes all show ?thesis by blast
qed

theorem ingest_entries_witness:
  "\<exists>reqs rs w'.
     Ingest KinVersion_KIN3 test_client (\<lambda>es. None) (\<lambda>es. es) [] None = (reqs, Inr (rs, w'))
   \<and> StreamLedgers test_client \<lparr>Cursor = cursorFromPointer None, Order = OrderAsc\<rparr>
       = Inr [\<lparr>Sequence = 0\<rparr>, \<lparr>Sequence = 1\<rparr>, \<lparr>Sequence = 2\<rparr>]
   \<and> length rs = 3
   \<and> w' = [\<lparr>Version = KinVersion_KIN3, Ledger = 0, entryEnvelopeXdr = [0, 0], entryResultXdr = [0]\<rparr>,
           \<lparr>Version = KinVersion_KIN3, Ledger = 0, entryEnvelopeXdr = [0, 1], entryResultXdr = [1]\<rparr>,
           \<lparr>Version = KinVersion_KIN3, Ledger = 1, entryEnvelopeXdr = [1, 0], entryResultXdr = [0]\<rparr>,
           \<lparr>Version = KinVersion_KIN3, Ledger = 1, entryEnvelopeXdr = [1, 1], entryResultXdr = [1]\<rparr>,
           \<lparr>Version = KinVersion_KIN3, Ledger = 2, entryEnvelopeXdr = [2, 0], entryResultXdr = [0]\<rparr>,
           \<lparr>Version = KinVersion_KIN3, Ledger = 2, entryEnvelopeXdr = [2, 1], entryResultXdr = [1]\<rparr>]
   \<and> length w' = 6"
proof -
  let ?ls = "[\<lparr>Sequence = 0\<rparr>, \<lparr>Sequence = 1\<rparr>, \<lparr>Sequence = 2\<rparr>]"
  let ?run = "ingestLedgers KinVersion_KIN3 test_client (\<lambda>es. None) (\<lambda>es. es) None [] ?ls"
  let ?rs = "fst ?run"
  let ?w = "snd ?run"
  have sub: "StreamLedgers test_client \<lparr>Cursor = cursorFromPointer None, Order = OrderAsc\<rparr> = Inr ?ls"
    by (simp add: test_client_def)
  note main = ingest_entries [OF test_client_run sub]
  have errs: "\<forall>r\<in>set ?rs. Err r = None"
    using test_client_noFailure by (rule noFailure_Err)
  from main have len: "length ?rs = 3" by simp
  from main errs have
    "?w = [] @ concat (map (\<lambda>l. map (\<lambda>t. \<lparr>Version = KinVersion_KIN3, Ledger = Sequence l,
                                              entryEnvelopeXdr = EnvelopeXdr t,
                                              entryResultXdr = ResultXdr t\<rparr>) (pageOf test_client l)) ?ls)"
    by blast
  then have w: "?w = [\<lparr>Version = KinVersion_KIN3, Ledger = 0, entryEnvelopeXdr = [0, 0], entryResultXdr = [0]\<rparr>,
           \<lparr>Version = KinVersion_KIN3, Ledger = 0, entryEnvelopeXdr = [0, 1], entryResultXdr = [1]\<rparr>,
           \<lparr>Version = KinVersion_KIN3, Ledger = 1, entryEnvelopeXdr = [1, 0], entryResultXdr = [0]\<rparr>,
           \<lparr>Version = KinVersion_KIN3, Ledger = 1, entryEnvelopeXdr = [1, 1], entryResultXdr = [1]\<rparr>,
           \<lparr>Version = KinVersion_KIN3, Ledger = 2, entryEnvelopeXdr = [2, 0], entryResultXdr = [0]\<rparr>,
           \<lparr>Version = KinVersion_KIN3, Ledger = 2, entryEnvelopeXdr = [2, 1], entryResultXdr = [1]\<rparr>]"
    by (simp add: test_client_page test_txn_def del: ingestLedgers.simps)
  then have l6: "length ?w = 6" by (simp del: ingestLedgers.simps)
  show ?thesis
    by (intro exI conjI) (rule test_client_run sub len w l6)+
qed

section \<open>Theorems: the invoice store\<close>






section \<open>Theorems: the account info cache\<close>

text \<open>
  The account info cache serves an entry at the very instant of its expiry: with a stored
  item whose expiry is 100 and the clock at 100, the expiry is not after the current time,
  and \<open>Get\<close> returns the account info.
\<close>

theorem cache_Get_expiry_counterexample:
  "test_item_send \<lparr>TableName = ''account-info'', Key = [(''key'', AttrB [7])]\<rparr> = Inr test_item
   \<and> test_cache_fromItem test_item = Inr (''info'', 100)
   \<and> \<not> (100 :: instant) < 100
   \<and> cache_Get test_cacheTable test_item_send test_cache_fromItem 100 [7] = Inr ''info''"
  by (simp add: cache_Get_def test_cacheTable_def test_item_send_def test_item_def
      test_cache_fromItem_def)


text \<open>
  C10, as the code has it. \<open>Get\<close> returns \<open>ErrAccountInfoNotFound\<close> when the datastore
  holds no item for the key, and when the expiry of the stored item is before the current
  time; for a stored item that decodes, it returns the account info when the expiry is
  not before the current time. An account info is returned only for a stored item whose
  expiry is at or after the current time.
\<close>

theorem cache_Get_expiry:
  "(send \<lparr>TableName = ai_tableNameStr tbl, Key = [(ai_tableHashKey tbl, AttrB key)]\<rparr> = Inr [] \<longrightarrow>
      cache_Get tbl send fromItem now key = Inl ErrAccountInfoNotFound)
   \<and> (\<forall>it info expiry.
         send \<lparr>TableName = ai_tableNameStr tbl, Key = [(ai_tableHashKey tbl, AttrB key)]\<rparr> = Inr it
         \<and> it \<noteq> [] \<and> fromItem it = Inr (info, expiry) \<longrightarrow>
         cache_Get tbl send fromItem now key
           = (if expiry < now then Inl ErrAccountInfoNotFound else Inr info))
   \<and> (\<forall>info. cache_Get tbl send fromItem now key = Inr info \<longrightarrow>
         (\<exists>it expiry.
            send \<lparr>TableName = ai_tableNameStr tbl, Key = [(ai_tableHashKey tbl, AttrB key)]\<rparr> = Inr it
            \<and> it \<noteq> [] \<and> fromItem it = Inr (info, expiry) \<and> now \<le> expiry))"
proof -
  let ?req = "\<lparr>TableName = ai_tableNameStr tbl, Key = [(ai_tableHashKey tbl, AttrB key)]\<rparr>"
  have none: "cache_Get tbl send fromItem now key = Inl ErrAccountInfoNotFound"
    if "send ?req = Inr []"
    using that by (simp add: cache_Get_def)
  have stored: "cache_Get tbl send fromItem now key
           = (if expiry < now then Inl ErrAccountInfoNotFound else Inr info)"
    if "send ?req = Inr it" "it \<noteq> []" "fromItem it = Inr (info, expiry)" for it info expiry
    using that by (simp add: cache_Get_def)
  have served: "\<exists>it expiry. send ?req = Inr it \<and> it \<noteq> [] \<and> fromItem it = Inr (info, expiry)
                  \<and> now \<le> expiry"
    if "cache_Get tbl send fromItem now key = Inr info" for info
    using that
    by (auto simp: cache_Get_def split: sum.splits if_splits prod.splits)
  from none stored served show ?thesis by blast
qed


theorem cache_Get_expiry_witness:
  "test_item_send \<lparr>TableName = ''account-info'', Key = [(''key'', AttrB [7])]\<rparr> = Inr test_item
   \<and> test_item \<noteq> []
   \<and> test_cache_fromItem test_item = Inr (''info'', 100)
   \<and> cache_Get test_cacheTable test_item_send test_cache_fromItem 101 [7] = Inl ErrAccountInfoNotFound
   \<and> cache_Get test_cacheTable test_item_send test_cache_fromItem 100 [7] = Inr ''info''
   \<and> cache_Get test_cacheTable test_item_send test_cache_fromItem 99 [7] = Inr ''info''
   \<and> cache_Get test_cacheTable test_empty_send test_cache_fromItem 99 [7] = Inl ErrAccountInfoNotFound"
proof -
  have s: "test_item_send \<lparr>TableName = ai_tableNameStr test_cacheTable,
                           Key = [(ai_tableHashKey test_cacheTable, AttrB [7])]\<rparr> = Inr test_item"
    by (simp add: test_item_send_def)
  have e: "test_empty_send \<lparr>TableName = ai_tableNameStr test_cacheTable,
                           Key = [(ai_tableHashKey test_cacheTable, AttrB [7])]\<rparr> = Inr []"
    by (simp add: test_empty_send_def)
  have n: "test_item \<noteq> []" by (simp add: test_item_def)
  have f: "test_cache_fromItem test_item = Inr (''info'', 100)"
    by (simp add: test_cache_fromItem_def)
  have st: "cache_Get test_cacheTable test_item_send test_cache_fromItem now [7]
              = (if 100 < now then Inl ErrAccountInfoNotFound else Inr ''info'')" for now
    using cache_Get_expiry [of test_item_send test_cacheTable "[7]" test_cache_fromItem now] s n f
    by blast
  have em: "cache_Get test_cacheTable test_empty_send test_cache_fromItem 99 [7] = Inl ErrAccountInfoNotFound"
    using cache_Get_expiry [of test_empty_send test_cacheTable "[7]" test_cache_fromItem 99] e
    by blast
  from s n f st [of 101] st [of 100] st [of 99] em show ?thesis
    by (simp add: test_cacheTable_def)
qed

end
